theory Spec2Isabelle
  imports Complex_Main
begin

section \<open>Errors raised by the scripts\<close>

text \<open>
  A rejected promise or a thrown exception is a value: \<open>Inl\<close> of the error's name.
\<close>

datatype js_error = TypeError | InvalidStateError

section \<open>The simulated market feed (the dashboard component)\<close>

text \<open>
  JavaScript numbers are read as real numbers; the rounding of the doubles is not
  part of the model (over the doubles \<open>100 + Math.random() * 20\<close> can round up to
  120, which the reals never reach). Every call of \<open>Math.random()\<close> is a
  draw \<open>r\<close> with \<open>0 \<le> r < 1\<close>, handed to the function that makes the call, and
  \<open>new Date()\<close> is a time stamp in milliseconds handed over the same way.
\<close>

definition is_draw :: "real \<Rightarrow> bool" where
  "is_draw r \<longleftrightarrow> 0 \<le> r \<and> r < 1"

text \<open>The local constant \<open>change\<close> of \<open>generateNextPoint\<close>.\<close>

definition change :: "real \<Rightarrow> real" where
  "change r = (r - 0.5) * 5"

definition generateNextPoint :: "real \<Rightarrow> real \<Rightarrow> real" where
  "generateNextPoint r prevPrice = max 0 (prevPrice + change r)"

record point =
  time :: int
  "value" :: real

text \<open>
  The part of the state of \<open>App\<close> that the chart update touches: \<open>chartData\<close>
  starts as the empty array and \<open>portfolioValue\<close> as 124500.
\<close>

record app_state =
  chartData :: "point list"
  portfolioValue :: real

definition App_initial :: app_state where
  "App_initial = \<lparr>chartData = [], portfolioValue = 124500\<rparr>"

text \<open>
  The first effect: fifty points, the \<open>i\<close>-th one \<open>(50 - i)\<close> seconds before
  \<open>now\<close> with the value \<open>100 + Math.random() * 20\<close>; \<open>rs i\<close> is the draw made
  for index \<open>i\<close>.
\<close>

definition initData :: "int \<Rightarrow> (nat \<Rightarrow> real) \<Rightarrow> point list" where
  "initData now rs =
     map (\<lambda>i. \<lparr>time = now - (50 - int i) * 1000, value = 100 + rs i * 20\<rparr>) [0..<50]"

definition initialize :: "int \<Rightarrow> (nat \<Rightarrow> real) \<Rightarrow> app_state \<Rightarrow> app_state" where
  "initialize now rs s = s\<lparr>chartData := initData now rs\<rparr>"

text \<open>
  One tick of the interval, step 1 (the chart and the portfolio value; steps 2 and 3
  update the sectors and the tickers, which are other state variables). Reading
  \<open>prev[prev.length - 1].value\<close> from an empty array is a property access on
  \<open>undefined\<close>, which throws a TypeError. \<open>prev.slice(1)\<close> is the array without
  its first element.
\<close>

definition tick :: "real \<Rightarrow> int \<Rightarrow> app_state \<Rightarrow> js_error + app_state" where
  "tick r newTime s =
     (let prev = chartData s in
      if prev = [] then Inl TypeError
      else
        let lastValue = value (last prev);
            newValue = generateNextPoint r lastValue;
            newData = tl prev @ [\<lparr>time = newTime, value = newValue\<rparr>]
        in Inr \<lparr>chartData = newData,
                portfolioValue = portfolioValue s + (newValue - lastValue) * 100\<rparr>)"

text \<open>A run of the timer: one draw and one time stamp per tick, stopping at an error.\<close>

fun run_ticks :: "(real \<times> int) list \<Rightarrow> app_state \<Rightarrow> js_error + app_state" where
  "run_ticks [] s = Inr s"
| "run_ticks ((r, newTime) # ds) s =
     (case tick r newTime s of Inl e \<Rightarrow> Inl e | Inr s' \<Rightarrow> run_ticks ds s')"

section \<open>The service worker\<close>

subsection \<open>The host: cache storage and network\<close>

text \<open>
  The script calls the browser's \<open>caches\<close> object, a \<open>Cache\<close> and \<open>fetch\<close>.
  A request is its method and its locator (an already resolved URL, as a string); a
  response is its status and its body. \<open>Vary\<close> headers and URL fragments are left out.

  A cache is its list of request/response pairs, and the cache storage is the list of
  its named caches in the order of their creation, which is the order in which
  \<open>caches.keys()\<close> reports them and \<open>caches.match\<close> searches them. The network
  answers a request with a response, or with \<open>None\<close> for a network error; the
  requests that reached the network are logged.
\<close>

record request =
  "method" :: string
  url :: string

record response =
  status :: nat
  body :: string

type_synonym cache = "(request \<times> response) list"
type_synonym cache_storage = "(string \<times> cache) list"
type_synonym network = "request \<Rightarrow> response option"

record world =
  storage :: cache_storage
  net_log :: "request list"

text \<open>The request that \<open>cache.addAll\<close> builds from a locator string.\<close>

definition GET :: "string \<Rightarrow> request" where
  "GET u = \<lparr>method = ''GET'', url = u\<rparr>"

text \<open>
  Query Cache: a request whose method is not GET matches nothing; otherwise the entries
  whose URL equals the request's URL match.
\<close>

definition query_cache :: "cache \<Rightarrow> request \<Rightarrow> (request \<times> response) list" where
  "query_cache c r =
     (if method r \<noteq> ''GET'' then [] else filter (\<lambda>(k, v). url k = url r) c)"

text \<open>\<open>cache.match\<close>: the first matching response, or \<open>undefined\<close>.\<close>

definition cache_match :: "cache \<Rightarrow> request \<Rightarrow> response option" where
  "cache_match c r = (case query_cache c r of [] \<Rightarrow> None | (k, v) # _ \<Rightarrow> Some v)"

text \<open>
  \<open>caches.match\<close>: every cache of the storage is asked in turn, and the first match
  is the answer.
\<close>

fun caches_match :: "cache_storage \<Rightarrow> request \<Rightarrow> response option" where
  "caches_match [] r = None"
| "caches_match ((n, c) # st) r =
     (case cache_match c r of Some v \<Rightarrow> Some v | None \<Rightarrow> caches_match st r)"

definition caches_keys :: "cache_storage \<Rightarrow> string list" where
  "caches_keys st = map fst st"

text \<open>\<open>caches.open\<close>: the cache of that name; a new, empty one when there is none.\<close>

definition caches_open :: "string \<Rightarrow> cache_storage \<Rightarrow> cache_storage" where
  "caches_open name st = (if name \<in> set (caches_keys st) then st else st @ [(name, [])])"

definition cache_of :: "cache_storage \<Rightarrow> string \<Rightarrow> cache" where
  "cache_of st name = (case map_of st name of None \<Rightarrow> [] | Some c \<Rightarrow> c)"

fun set_cache :: "string \<Rightarrow> cache \<Rightarrow> cache_storage \<Rightarrow> cache_storage" where
  "set_cache name c [] = []"
| "set_cache name c ((n, old) # st) =
     (if n = name then (n, c) # st else (n, old) # set_cache name c st)"

text \<open>\<open>caches.delete\<close>: whether there was such a cache, and the storage without it.\<close>

definition caches_delete :: "string \<Rightarrow> cache_storage \<Rightarrow> bool \<times> cache_storage" where
  "caches_delete name st =
     (name \<in> set (caches_keys st), filter (\<lambda>(n, c). n \<noteq> name) st)"

text \<open>
  \<open>fetch\<close>: the request goes to the network; a network error rejects with a
  TypeError, any response (whatever its status) fulfils.
\<close>

definition net_fetch :: "network \<Rightarrow> request \<Rightarrow> world \<Rightarrow> (js_error + response) \<times> world" where
  "net_fetch net r w =
     ((case net r of None \<Rightarrow> Inl TypeError | Some v \<Rightarrow> Inr v),
      w\<lparr>net_log := net_log w @ [r]\<rparr>)"

text \<open>
  \<open>cache.addAll\<close>, first half: every locator is fetched; a network error, a status
  that is not an ok status (200 to 299) and the status 206 reject with a TypeError.
\<close>

definition ok_status :: "nat \<Rightarrow> bool" where
  "ok_status n \<longleftrightarrow> 200 \<le> n \<and> n \<le> 299"

definition fetch_for_add :: "network \<Rightarrow> request \<Rightarrow> js_error + response" where
  "fetch_for_add net r =
     (case net r of
        None \<Rightarrow> Inl TypeError
      | Some v \<Rightarrow> if \<not> ok_status (status v) \<or> status v = 206 then Inl TypeError else Inr v)"

fun collect_responses :: "network \<Rightarrow> request list \<Rightarrow> js_error + (request \<times> response) list" where
  "collect_responses net [] = Inr []"
| "collect_responses net (r # rs) =
     (case fetch_for_add net r of
        Inl e \<Rightarrow> Inl e
      | Inr v \<Rightarrow>
          (case collect_responses net rs of
             Inl e \<Rightarrow> Inl e
           | Inr ops \<Rightarrow> Inr ((r, v) # ops)))"

text \<open>
  \<open>cache.addAll\<close>, second half (Batch Cache Operations with put operations): an
  operation whose request matches an item added earlier in the same batch throws an
  InvalidStateError; otherwise the entries the request matches are removed and the new
  pair is appended. The caller restores the cache when the batch throws.
\<close>

fun batch_put :: "(request \<times> response) list \<Rightarrow> cache \<Rightarrow> cache \<Rightarrow> js_error + cache" where
  "batch_put [] addedItems c = Inr c"
| "batch_put ((r, v) # ops) addedItems c =
     (if query_cache addedItems r \<noteq> [] then Inl InvalidStateError
      else batch_put ops (addedItems @ [(r, v)])
             (filter (\<lambda>(k, old). url k \<noteq> url r) c @ [(r, v)]))"

definition cache_addAll :: "network \<Rightarrow> string list \<Rightarrow> cache \<Rightarrow> js_error + cache" where
  "cache_addAll net urls c =
     (case collect_responses net (map GET urls) of
        Inl e \<Rightarrow> Inl e
      | Inr ops \<Rightarrow> batch_put ops [] c)"

text \<open>The locators a cache holds an entry for.\<close>

definition urls_of :: "cache \<Rightarrow> string set" where
  "urls_of c = (url \<circ> fst) ` set c"

subsection \<open>The script \<open>sw.js\<close>\<close>

definition CACHE_NAME :: string where
  "CACHE_NAME = ''meet-patel-portfolio-v1''"

definition ASSETS_TO_CACHE :: "string list" where
  "ASSETS_TO_CACHE =
     [''/'', ''/index.html'', ''/projects.html'', ''/about.html'', ''/skills.html'',
      ''/contact.html'', ''/blog.html'', ''/404.html'', ''/privacy.html'',
      ''/offline.html'', ''/favicon.jpg'', ''/manifest.json'',
      ''https://cdn.tailwindcss.com'',
      ''https://fonts.googleapis.com/css2?family=Manrope:wght@300;400;600&family=Oswald:wght@400;500;700&display=swap'']"

text \<open>
  The handlers take the two constants of the script as parameters, so that a deployment
  with another version tag or another asset list is the same handler at other
  arguments. Each returns what the promise given to \<open>waitUntil\<close> or
  \<open>respondWith\<close> settles to, and the world after it.

  Install: \<open>caches.open(CACHE_NAME)\<close>, then \<open>cache.addAll(ASSETS_TO_CACHE)\<close>. When
  \<open>addAll\<close> rejects, the opened cache keeps the entries it had.
\<close>

definition install_handler ::
  "string \<Rightarrow> string list \<Rightarrow> network \<Rightarrow> world \<Rightarrow> (js_error + unit) \<times> world" where
  "install_handler cache_name assets net w =
     (let st = caches_open cache_name (storage w);
          lg = net_log w @ map GET assets
      in case cache_addAll net assets (cache_of st cache_name) of
           Inl e \<Rightarrow> (Inl e, \<lparr>storage = st, net_log = lg\<rparr>)
         | Inr c \<Rightarrow> (Inr (), \<lparr>storage = set_cache cache_name c st, net_log = lg\<rparr>))"

text \<open>
  Activate: \<open>caches.keys()\<close>, then for each reported name, in order,
  \<open>caches.delete\<close> when the name differs from \<open>CACHE_NAME\<close>.
\<close>

fun delete_others :: "string \<Rightarrow> string list \<Rightarrow> cache_storage \<Rightarrow> cache_storage" where
  "delete_others cache_name [] st = st"
| "delete_others cache_name (cache # cacheNames) st =
     (if cache \<noteq> cache_name
      then delete_others cache_name cacheNames (snd (caches_delete cache st))
      else delete_others cache_name cacheNames st)"

definition activate_handler :: "string \<Rightarrow> world \<Rightarrow> (js_error + unit) \<times> world" where
  "activate_handler cache_name w =
     (Inr (), w\<lparr>storage := delete_others cache_name (caches_keys (storage w)) (storage w)\<rparr>)"

text \<open>
  Fetch: \<open>caches.match(event.request)\<close>; the response when there is one, else
  \<open>fetch(event.request)\<close>.
\<close>

definition fetch_handler :: "network \<Rightarrow> request \<Rightarrow> world \<Rightarrow> (js_error + response) \<times> world" where
  "fetch_handler net req w =
     (case caches_match (storage w) req of
        Some resp \<Rightarrow> (Inr resp, w)
      | None \<Rightarrow> net_fetch net req w)"

text \<open>
  The steady state: the host dispatches one fetch event per request, one after the
  other, each with the network as it is at that moment.
\<close>

fun fetch_events :: "(network \<times> request) list \<Rightarrow> world \<Rightarrow> world" where
  "fetch_events [] w = w"
| "fetch_events ((net, req) # evs) w = fetch_events evs (snd (fetch_handler net req w))"

text \<open>
  The host's update of the worker: the activate event is dispatched only when the
  promise of the install event is fulfilled; otherwise the new worker is discarded.
\<close>

datatype worker_state = Activated | Redundant js_error

definition update_worker ::
  "string \<Rightarrow> string list \<Rightarrow> network \<Rightarrow> world \<Rightarrow> worker_state \<times> world" where
  "update_worker cache_name assets net w =
     (case install_handler cache_name assets net w of
        (Inl e, w') \<Rightarrow> (Redundant e, w')
      | (Inr u, w') \<Rightarrow> (Activated, snd (activate_handler cache_name w')))"

section \<open>Properties of the market feed\<close>

lemma change_bounds: "is_draw r \<Longrightarrow> - 2.5 \<le> change r \<and> change r < 2.5"
  by (simp add: is_draw_def change_def)

lemma generateNextPoint_nonneg: "0 \<le> generateNextPoint r p"
  by (simp add: generateNextPoint_def)

lemma tick_empty: "chartData s = [] \<Longrightarrow> tick r t s = Inl TypeError"
  by (simp add: tick_def)

lemma tick_nonempty:
  "chartData s \<noteq> [] \<Longrightarrow>
   tick r t s =
     Inr \<lparr>chartData = tl (chartData s) @
            [\<lparr>time = t, value = generateNextPoint r (value (last (chartData s)))\<rparr>],
          portfolioValue = portfolioValue s +
            (generateNextPoint r (value (last (chartData s))) - value (last (chartData s))) * 100\<rparr>"
  by (simp add: tick_def Let_def)

lemma length_initData: "length (initData now rs) = 50"
  by (simp add: initData_def)


lemma initialize_nonempty: "chartData (initialize now rs s) \<noteq> []"
  using length_initData [of now rs] by (auto simp: initialize_def)

text \<open>
  What a run of ticks keeps: it does not fail on a series that is not empty, the series
  keeps its length, and the portfolio value minus 100 times the last chart value stays
  what it was.
\<close>

lemma run_ticks_inv:
  "chartData s \<noteq> [] \<Longrightarrow>
   \<exists>s'. run_ticks ds s = Inr s' \<and> length (chartData s') = length (chartData s) \<and>
     portfolioValue s' - 100 * value (last (chartData s')) =
       portfolioValue s - 100 * value (last (chartData s)) \<and>
     (ds \<noteq> [] \<longrightarrow> 0 \<le> value (last (chartData s')))"
proof (induction ds arbitrary: s)
  case Nil
  then show ?case by simp
next
  case (Cons d ds)
  obtain r t where d: "d = (r, t)" by (cases d)
  let ?s1 = "\<lparr>chartData = tl (chartData s) @
                [\<lparr>time = t, value = generateNextPoint r (value (last (chartData s)))\<rparr>],
              portfolioValue = portfolioValue s +
                (generateNextPoint r (value (last (chartData s))) - value (last (chartData s))) * 100\<rparr>"
  have t1: "tick r t s = Inr ?s1" using Cons.prems by (rule tick_nonempty)
  have ne: "chartData ?s1 \<noteq> []" by simp
  from Cons.IH [OF ne] obtain s' where
    r: "run_ticks ds ?s1 = Inr s'" and l: "length (chartData s') = length (chartData ?s1)"
    and p: "portfolioValue s' - 100 * value (last (chartData s')) =
            portfolioValue ?s1 - 100 * value (last (chartData ?s1))"
    and z: "ds \<noteq> [] \<longrightarrow> 0 \<le> value (last (chartData s'))"
    by blast
  have l1: "length (chartData ?s1) = length (chartData s)" using Cons.prems by simp
  have z': "0 \<le> value (last (chartData s'))"
  proof (cases ds)
    case Nil
    with r have "s' = ?s1" by simp
    then show ?thesis by (simp add: generateNextPoint_nonneg)
  next
    case (Cons a list)
    then show ?thesis using z by simp
  qed
  show ?case using r l p z' l1 by (simp add: d t1)
qed

text \<open>The values of the chart series are never negative in a run of the component.\<close>

lemma initData_values:
  "\<forall>i < 50. is_draw (rs i) \<Longrightarrow> \<forall>p \<in> set (initData now rs). 100 \<le> value p"
  by (auto simp: initData_def is_draw_def)

lemma tick_values_nonneg:
  "\<forall>p \<in> set (chartData s). 0 \<le> value p \<Longrightarrow> tick r t s = Inr s' \<Longrightarrow>
   \<forall>p \<in> set (chartData s'). 0 \<le> value p"
proof -
  assume a: "\<forall>p \<in> set (chartData s). 0 \<le> value p" and t: "tick r t s = Inr s'"
  from t have ne: "chartData s \<noteq> []" by (auto simp: tick_def split: if_splits)
  then have sub: "set (tl (chartData s)) \<subseteq> set (chartData s)"
    by (cases "chartData s") auto
  from t ne have "chartData s' = tl (chartData s) @
      [\<lparr>time = t, value = generateNextPoint r (value (last (chartData s)))\<rparr>]"
    by (auto simp: tick_nonempty)
  with a sub show ?thesis by (auto simp: generateNextPoint_nonneg)
qed

lemma run_ticks_values_nonneg:
  "\<forall>p \<in> set (chartData s). 0 \<le> value p \<Longrightarrow> run_ticks ds s = Inr s' \<Longrightarrow>
   \<forall>p \<in> set (chartData s'). 0 \<le> value p"
proof (induction ds arbitrary: s)
  case Nil
  then show ?case by simp
next
  case (Cons d ds)
  obtain r t where d: "d = (r, t)" by (cases d)
  from Cons.prems(2) obtain s1 where t1: "tick r t s = Inr s1" and r: "run_ticks ds s1 = Inr s'"
    by (auto simp: d split: sum.splits)
  from tick_values_nonneg [OF Cons.prems(1) t1] have "\<forall>p \<in> set (chartData s1). 0 \<le> value p" .
  from Cons.IH [OF this r] show ?case .
qed

lemma chart_values_nonneg:
  "\<forall>i < 50. is_draw (rs i) \<Longrightarrow> run_ticks ds (initialize now rs s) = Inr s' \<Longrightarrow>
   \<forall>p \<in> set (chartData s'). 0 \<le> value p"
proof -
  assume a: "\<forall>i < 50. is_draw (rs i)" and r: "run_ticks ds (initialize now rs s) = Inr s'"
  from initData_values [OF a, of now]
  have "\<forall>p \<in> set (chartData (initialize now rs s)). 0 \<le> value p"
    by (auto simp: initialize_def intro: order_trans [of 0 100])
  from run_ticks_values_nonneg [OF this r] show ?thesis .
qed

text \<open>
  C8. For every previous chart value \<open>prevPrice\<close> (chart values are never negative,
  \<open>chart_values_nonneg\<close>) and every random draw, the next point is the sum of
  \<open>prevPrice\<close> and the change, clamped at zero: it is not negative, the change before
  clamping has magnitude at most 2.5, and the next point lies between
  \<open>prevPrice - 2.5\<close> and \<open>prevPrice + 2.5\<close>.
\<close>

theorem generateNextPoint_clamped_bounded:
  "is_draw r \<Longrightarrow> 0 \<le> prevPrice \<Longrightarrow>
   generateNextPoint r prevPrice = max 0 (prevPrice + change r) \<and>
   0 \<le> generateNextPoint r prevPrice \<and> \<bar>change r\<bar> \<le> 2.5 \<and>
   prevPrice - 2.5 \<le> generateNextPoint r prevPrice \<and>
   generateNextPoint r prevPrice \<le> prevPrice + 2.5 \<and>
   \<bar>generateNextPoint r prevPrice - prevPrice\<bar> \<le> 2.5"
proof -
  assume d: "is_draw r" and p: "0 \<le> prevPrice"
  from change_bounds [OF d] have lo: "- 2.5 \<le> change r" and hi: "change r < 2.5" by blast+
  have e: "generateNextPoint r prevPrice = max 0 (prevPrice + change r)"
    by (simp add: generateNextPoint_def)
  from lo hi have c: "\<bar>change r\<bar> \<le> 2.5" by simp
  from lo have l: "prevPrice - 2.5 \<le> generateNextPoint r prevPrice"
    unfolding e by simp
  from hi p have u: "generateNextPoint r prevPrice \<le> prevPrice + 2.5"
    unfolding e by simp
  from l u have a: "\<bar>generateNextPoint r prevPrice - prevPrice\<bar> \<le> 2.5" by linarith
  from e c l u a show ?thesis by (simp add: generateNextPoint_nonneg)
qed

theorem generateNextPoint_clamped_bounded_witness:
  "is_draw 0 \<and> generateNextPoint 0 1 = 0 \<and> \<bar>change 0\<bar> \<le> 2.5 \<and>
   1 - 2.5 \<le> generateNextPoint 0 1 \<and> generateNextPoint 0 1 \<le> 1 + 2.5 \<and>
   is_draw 0.9 \<and> generateNextPoint 0.9 100 = 102 \<and>
   \<bar>generateNextPoint 0.9 100 - 100\<bar> \<le> 2.5"
proof -
  have d: "is_draw 0" by (simp add: is_draw_def)
  have p: "(0::real) \<le> 1" by simp
  have v: "generateNextPoint 0 1 = 0" by (simp add: generateNextPoint_def change_def)
  have d': "is_draw 0.9" by (simp add: is_draw_def)
  have p': "(0::real) \<le> 100" by simp
  have v': "generateNextPoint 0.9 100 = 102" by (simp add: generateNextPoint_def change_def)
  from generateNextPoint_clamped_bounded [OF d p]
  have a: "\<bar>change 0\<bar> \<le> 2.5 \<and> 1 - 2.5 \<le> generateNextPoint 0 1 \<and>
           generateNextPoint 0 1 \<le> 1 + 2.5" by blast
  from generateNextPoint_clamped_bounded [OF d' p']
  have b: "\<bar>generateNextPoint 0.9 100 - 100\<bar> \<le> 2.5" by blast
  from a b d d' v v' show ?thesis by blast
qed

text \<open>
  C9. A tick on a series that is not empty removes the oldest point and appends one new
  point, so the length of the series does not change, and after the initialization it
  stays at 50 through every run of ticks, none of which fails. A tick on the empty
  series fails with a TypeError.
\<close>

theorem tick_keeps_series_length:
  "(chartData s = [] \<longrightarrow> tick r t s = Inl TypeError) \<and>
   (chartData s \<noteq> [] \<longrightarrow>
      (\<exists>s'. tick r t s = Inr s' \<and>
         chartData s' = tl (chartData s) @
           [\<lparr>time = t, value = generateNextPoint r (value (last (chartData s)))\<rparr>] \<and>
         length (chartData s') = length (chartData s))) \<and>
   (\<exists>s'. run_ticks ds (initialize now rs s) = Inr s' \<and> length (chartData s') = 50)"
proof (intro conjI impI)
  assume "chartData s = []"
  then show "tick r t s = Inl TypeError" by (rule tick_empty)
next
  assume ne: "chartData s \<noteq> []"
  then show "\<exists>s'. tick r t s = Inr s' \<and>
         chartData s' = tl (chartData s) @
           [\<lparr>time = t, value = generateNextPoint r (value (last (chartData s)))\<rparr>] \<and>
         length (chartData s') = length (chartData s)"
    by (simp add: tick_nonempty)
next
  from run_ticks_inv [OF initialize_nonempty, of ds now rs s]
  show "\<exists>s'. run_ticks ds (initialize now rs s) = Inr s' \<and> length (chartData s') = 50"
    by (auto simp: initialize_def length_initData)
qed

theorem tick_keeps_series_length_witness:
  "tick 0 5 App_initial = Inl TypeError \<and>
   (\<exists>s'. tick 0 5 \<lparr>chartData = [\<lparr>time = 1, value = 7\<rparr>, \<lparr>time = 2, value = 9\<rparr>],
                     portfolioValue = 124500\<rparr> = Inr s' \<and>
      chartData s' = [\<lparr>time = 2, value = 9\<rparr>, \<lparr>time = 5, value = 6.5\<rparr>] \<and>
      length (chartData s') = 2)"
proof -
  have e: "chartData App_initial = []" by (simp add: App_initial_def)
  let ?s = "\<lparr>chartData = [\<lparr>time = 1, value = 7\<rparr>, \<lparr>time = 2, value = 9\<rparr>],
             portfolioValue = 124500\<rparr>"
  have ne: "chartData ?s \<noteq> []" by simp
  have v: "generateNextPoint 0 9 = 6.5" by (simp add: generateNextPoint_def change_def)
  from tick_keeps_series_length [of App_initial 0 5] e
  have a: "tick 0 5 App_initial = Inl TypeError" by blast
  from tick_keeps_series_length [of ?s 0 5] ne
  have b: "\<exists>s'. tick 0 5 ?s = Inr s' \<and>
         chartData s' = tl (chartData ?s) @
           [\<lparr>time = 5, value = generateNextPoint 0 (value (last (chartData ?s)))\<rparr>] \<and>
         length (chartData s') = length (chartData ?s)" by blast
  from b v obtain s' where "tick 0 5 ?s = Inr s'"
    and "chartData s' = [\<lparr>time = 2, value = 9\<rparr>, \<lparr>time = 5, value = 6.5\<rparr>]"
    and "length (chartData s') = 2"
    by auto
  with a show ?thesis by blast
qed




section \<open>Properties of the service worker\<close>

text \<open>Deleting the caches of other names.\<close>

lemma delete_others_filter:
  "delete_others name ns st = filter (\<lambda>(n, c). n = name \<or> n \<notin> set ns) st"
proof (induction ns arbitrary: st)
  case Nil
  then show ?case by simp
next
  case (Cons a ns)
  show ?case
    by (auto simp: Cons.IH caches_delete_def intro!: filter_cong)
qed

lemma delete_others_keys:
  "delete_others name (caches_keys st) st = filter (\<lambda>(n, c). n = name) st"
  unfolding delete_others_filter
  by (rule filter_cong) (force simp: caches_keys_def)+

lemma map_of_filter_name: "map_of (filter (\<lambda>(n, c). n = name) st) name = map_of st name"
  by (induction st) auto

lemma keys_filter_name:
  "caches_keys (filter (\<lambda>(n, c). n = name) st) = filter (\<lambda>n. n = name) (caches_keys st)"
  by (induction st) (auto simp: caches_keys_def)

lemma filter_eq_singleton: "distinct xs \<Longrightarrow> x \<in> set xs \<Longrightarrow> filter (\<lambda>n. n = x) xs = [x]"
  by (induction xs) (auto simp: filter_empty_conv)

text \<open>Fetching the assets.\<close>

lemma fetch_for_add_Inl: "fetch_for_add net r = Inl e \<Longrightarrow> e = TypeError"
  by (auto simp: fetch_for_add_def split: option.splits if_splits)

lemma fetch_for_add_Inr: "fetch_for_add net r = Inr v \<Longrightarrow> net r = Some v"
  by (auto simp: fetch_for_add_def split: option.splits if_splits)

lemma collect_responses_fail:
  "r \<in> set rs \<Longrightarrow> fetch_for_add net r = Inl e \<Longrightarrow> collect_responses net rs = Inl TypeError"
  by (induction rs) (auto split: sum.splits dest: fetch_for_add_Inl)

lemma collect_responses_ok:
  "\<forall>r \<in> set rs. \<exists>v. fetch_for_add net r = Inr v \<Longrightarrow> \<exists>ops. collect_responses net rs = Inr ops"
  by (induction rs) (auto split: sum.splits)

text \<open>Storing the fetched assets.\<close>

lemma query_cache_empty_iff:
  "method r = ''GET'' \<Longrightarrow> query_cache c r = [] \<longleftrightarrow> url r \<notin> urls_of c"
  by (induction c) (auto simp: query_cache_def urls_of_def)

lemma batch_put_Inr:
  "batch_put ops added c = Inr c' \<Longrightarrow> \<forall>(r, v) \<in> set ops. method r = ''GET'' \<Longrightarrow>
     distinct (map (url \<circ> fst) ops) \<and> urls_of ops \<inter> urls_of added = {} \<and>
     c' = filter (\<lambda>(k, v). url k \<notin> urls_of ops) c @ ops"
proof (induction ops added c rule: batch_put.induct)
  case (1 addedItems c)
  then show ?case by (simp add: urls_of_def)
next
  case (2 r v ops addedItems c)
  from "2.prems" have g: "method r = ''GET''" and gs: "\<forall>(r, v) \<in> set ops. method r = ''GET''" by auto
  from "2.prems"(1) have q: "query_cache addedItems r = []"
    and b: "batch_put ops (addedItems @ [(r, v)]) (filter (\<lambda>(k, old). url k \<noteq> url r) c @ [(r, v)]) = Inr c'"
    by (auto split: if_splits)
  from q g have n: "url r \<notin> urls_of addedItems" by (simp add: query_cache_empty_iff)
  from q have nq: "\<not> query_cache addedItems r \<noteq> []" by simp
  note ih = "2.IH" [OF nq b gs]
  from ih have d: "distinct (map (url \<circ> fst) ops)" by blast
  from ih have i: "urls_of ops \<inter> urls_of (addedItems @ [(r, v)]) = {}" by blast
  from ih have c': "c' = filter (\<lambda>(k, v). url k \<notin> urls_of ops) (filter (\<lambda>(k, old). url k \<noteq> url r) c @ [(r, v)]) @ ops"
    by blast
  from i have nr: "url r \<notin> urls_of ops" by (auto simp: urls_of_def)
  have f: "filter (\<lambda>(k, v). url k \<notin> urls_of ops) (filter (\<lambda>(k, old). url k \<noteq> url r) c)
      = filter (\<lambda>(k, v). url k \<notin> urls_of ((r, v) # ops)) c"
    by (auto simp: urls_of_def intro!: filter_cong)
  show ?case using d i n nr c' f by (auto simp: urls_of_def comp_def)
qed

lemma batch_put_ok:
  "\<forall>(r, v) \<in> set ops. method r = ''GET'' \<Longrightarrow> distinct (map (url \<circ> fst) ops) \<Longrightarrow>
   urls_of ops \<inter> urls_of added = {} \<Longrightarrow> \<exists>c'. batch_put ops added c = Inr c'"
proof (induction ops added c rule: batch_put.induct)
  case (1 addedItems c)
  then show ?case by simp
next
  case (2 r v ops addedItems c)
  from "2.prems" have g: "method r = ''GET''" by auto
  from "2.prems" have q: "query_cache addedItems r = []"
    by (simp add: query_cache_empty_iff [OF g]) (auto simp: urls_of_def)
  have "\<exists>c'. batch_put ops (addedItems @ [(r, v)]) (filter (\<lambda>(k, old). url k \<noteq> url r) c @ [(r, v)]) = Inr c'"
    using "2.prems" by (intro "2.IH" [OF _]) (auto simp: q urls_of_def)
  then show ?case by (simp add: q)
qed


lemma collect_responses_GET:
  "collect_responses net (map GET urls) = Inr ops \<Longrightarrow>
     map (url \<circ> fst) ops = urls \<and> (\<forall>(r, v) \<in> set ops. method r = ''GET'')"
  by (induction urls arbitrary: ops) (auto split: sum.splits simp: GET_def)

lemma urls_of_map: "urls_of ops = set (map (url \<circ> fst) ops)"
  by (simp add: urls_of_def)

lemma cache_addAll_Inr:
  "cache_addAll net urls c = Inr c' \<Longrightarrow>
   \<exists>ops. collect_responses net (map GET urls) = Inr ops \<and> distinct urls \<and>
     c' = filter (\<lambda>(k, v). url k \<notin> set urls) c @ ops"
proof -
  assume a: "cache_addAll net urls c = Inr c'"
  then obtain ops where co: "collect_responses net (map GET urls) = Inr ops"
    and b: "batch_put ops [] c = Inr c'"
    by (auto simp: cache_addAll_def split: sum.splits)
  from collect_responses_GET [OF co] have u: "map (url \<circ> fst) ops = urls"
    and g: "\<forall>(r, v) \<in> set ops. method r = ''GET''" by blast+
  from u have uo: "urls_of ops = set urls" by (simp only: urls_of_map)
  from batch_put_Inr [OF b g] have "distinct (map (url \<circ> fst) ops)"
    and "c' = filter (\<lambda>(k, v). url k \<notin> urls_of ops) c @ ops" by blast+
  with u uo co show ?thesis by simp
qed

lemma cache_addAll_ok:
  "distinct urls \<Longrightarrow> \<forall>u \<in> set urls. \<exists>v. fetch_for_add net (GET u) = Inr v \<Longrightarrow>
   \<exists>c'. cache_addAll net urls c = Inr c'"
proof -
  assume d: "distinct urls" and f: "\<forall>u \<in> set urls. \<exists>v. fetch_for_add net (GET u) = Inr v"
  from f have "\<forall>r \<in> set (map GET urls). \<exists>v. fetch_for_add net r = Inr v" by simp
  from collect_responses_ok [OF this] obtain ops where
    co: "collect_responses net (map GET urls) = Inr ops" by blast
  from collect_responses_GET [OF co] have u: "map (url \<circ> fst) ops = urls"
    and g: "\<forall>(r, v) \<in> set ops. method r = ''GET''" by blast+
  have e: "urls_of ops \<inter> urls_of [] = {}" by (simp add: urls_of_def)
  from d u have "distinct (map (url \<circ> fst) ops)" by simp
  from batch_put_ok [OF g this e, of c] co show ?thesis by (simp add: cache_addAll_def)
qed

lemma cache_addAll_fail:
  "u \<in> set urls \<Longrightarrow> fetch_for_add net (GET u) = Inl e \<Longrightarrow>
   cache_addAll net urls c = Inl TypeError"
proof -
  assume "u \<in> set urls" and f: "fetch_for_add net (GET u) = Inl e"
  then have "GET u \<in> set (map GET urls)" by simp
  from collect_responses_fail [OF this f] show ?thesis by (simp add: cache_addAll_def)
qed

lemma stored_entry:
  "collect_responses net (map GET urls) = Inr ops \<Longrightarrow> distinct urls \<Longrightarrow> u \<in> set urls \<Longrightarrow>
   \<exists>v. net (GET u) = Some v \<and> filter (\<lambda>(k, v). url k = u) ops = [(GET u, v)]"
proof (induction urls arbitrary: ops)
  case Nil
  then show ?case by simp
next
  case (Cons a urls)
  from Cons.prems(1) obtain v ops' where fa: "fetch_for_add net (GET a) = Inr v"
    and co: "collect_responses net (map GET urls) = Inr ops'" and ops: "ops = (GET a, v) # ops'"
    by (auto split: sum.splits)
  from collect_responses_GET [OF co] have u: "map (url \<circ> fst) ops' = urls" by blast
  show ?case
  proof (cases "u = a")
    case True
    with Cons.prems(2) u have "a \<notin> set (map (url \<circ> fst) ops')" by simp
    then have "filter (\<lambda>(k, v). url k = a) ops' = []"
      by (force simp: filter_empty_conv)
    with True fa ops show ?thesis by (simp add: GET_def fetch_for_add_Inr)
  next
    case False
    with Cons.prems have "u \<in> set urls" "distinct urls" by auto
    from Cons.IH [OF co this(2) this(1)] False ops show ?thesis by (simp add: GET_def)
  qed
qed

text \<open>
  C2. After the activate handler, the names of the remaining caches are the earlier
  names that equal \<open>CACHE_NAME\<close>: every cache of another name is gone, the cache
  named \<open>CACHE_NAME\<close> keeps its entries, and in a storage that held it (under distinct
  names) it is the one cache left.
\<close>

theorem activate_leaves_current_only:
  "set (caches_keys (storage (snd (activate_handler name w)))) =
     set (caches_keys (storage w)) \<inter> {name} \<and>
   cache_of (storage (snd (activate_handler name w))) name = cache_of (storage w) name \<and>
   fst (activate_handler name w) = Inr () \<and>
   (distinct (caches_keys (storage w)) \<and> name \<in> set (caches_keys (storage w)) \<longrightarrow>
      caches_keys (storage (snd (activate_handler name w))) = [name])"
  by (auto simp: activate_handler_def delete_others_keys keys_filter_name cache_of_def
      map_of_filter_name filter_eq_singleton)

theorem activate_leaves_current_only_witness:
  "caches_keys (storage (snd (activate_handler CACHE_NAME
     \<lparr>storage = [(''v0'', [(GET ''/'', \<lparr>status = 200, body = ''old''\<rparr>)]),
                 (CACHE_NAME, [(GET ''/'', \<lparr>status = 200, body = ''new''\<rparr>)])],
      net_log = []\<rparr>))) = [CACHE_NAME]"
proof -
  let ?w = "\<lparr>storage = [(''v0'', [(GET ''/'', \<lparr>status = 200, body = ''old''\<rparr>)]),
                 (CACHE_NAME, [(GET ''/'', \<lparr>status = 200, body = ''new''\<rparr>)])],
      net_log = []\<rparr>"
  have h: "distinct (caches_keys (storage ?w)) \<and> CACHE_NAME \<in> set (caches_keys (storage ?w))"
    by (simp add: caches_keys_def CACHE_NAME_def)
  from activate_leaves_current_only [of CACHE_NAME ?w] h show ?thesis by blast
qed

text \<open>Opening a cache, replacing its entries, and looking requests up.\<close>

lemma caches_open_keys: "name \<in> set (caches_keys (caches_open name st))"
  by (simp add: caches_open_def caches_keys_def)

lemma caches_open_idem: "name \<in> set (caches_keys st) \<Longrightarrow> caches_open name st = st"
  by (simp add: caches_open_def)

lemma cache_of_caches_open: "cache_of (caches_open name st) name = cache_of st name"
  by (auto simp: caches_open_def cache_of_def caches_keys_def map_of_eq_None_iff [THEN iffD2]
      split: option.splits)

lemma set_cache_keys: "caches_keys (set_cache name c st) = caches_keys st"
  by (induction st) (auto simp: caches_keys_def)

lemma cache_of_set_cache:
  "name \<in> set (caches_keys st) \<Longrightarrow> cache_of (set_cache name c st) name = c"
  by (induction st) (force simp: caches_keys_def cache_of_def)+

lemma set_cache_twice: "set_cache name c2 (set_cache name c1 st) = set_cache name c2 st"
  by (induction st) auto

lemma filter_set_cache:
  "name \<in> set (caches_keys st) \<Longrightarrow>
   \<exists>rest. filter (\<lambda>(n, c). n = name) (set_cache name c' st) = (name, c') # rest"
  by (induction st) (force simp: caches_keys_def)+

lemma cache_match_Some_iff:
  "cache_match c r \<noteq> None \<longleftrightarrow> method r = ''GET'' \<and> url r \<in> urls_of c"
proof (cases "method r = ''GET''")
  case True
  then show ?thesis
    using query_cache_empty_iff [OF True, of c]
    by (auto simp: cache_match_def split: list.splits)
next
  case False
  then show ?thesis by (simp add: cache_match_def query_cache_def)
qed

lemma caches_match_Some_iff:
  "caches_match st r \<noteq> None \<longleftrightarrow>
     method r = ''GET'' \<and> (\<exists>(n, c) \<in> set st. url r \<in> urls_of c)"
proof (induction st)
  case Nil
  then show ?case by simp
next
  case (Cons a st)
  obtain n c where a: "a = (n, c)" by (cases a)
  show ?case
  proof (cases "cache_match c r")
    case None
    with cache_match_Some_iff [of c r] have "\<not> (method r = ''GET'' \<and> url r \<in> urls_of c)" by simp
    with None Cons.IH show ?thesis by (auto simp: a)
  next
    case (Some v)
    with cache_match_Some_iff [of c r] have "method r = ''GET'' \<and> url r \<in> urls_of c" by simp
    with Some show ?thesis by (auto simp: a)
  qed
qed

lemma caches_match_append:
  "caches_match (st @ st') r =
     (case caches_match st r of Some v \<Rightarrow> Some v | None \<Rightarrow> caches_match st' r)"
  by (induction st) (auto split: option.splits)

lemma cache_match_empty: "cache_match [] r = None"
  by (simp add: cache_match_def query_cache_def)

lemma caches_match_caches_open:
  "caches_match (caches_open name st) r = caches_match st r"
  by (auto simp: caches_open_def caches_match_append cache_match_empty split: option.splits)

lemma cache_match_stored:
  "collect_responses net (map GET urls) = Inr ops \<Longrightarrow> distinct urls \<Longrightarrow> u \<in> set urls \<Longrightarrow>
   \<exists>v. net (GET u) = Some v \<and>
     query_cache (filter (\<lambda>(k, v). url k \<notin> set urls) c @ ops) (GET u) = [(GET u, v)]"
proof -
  assume co: "collect_responses net (map GET urls) = Inr ops" and d: "distinct urls"
    and u: "u \<in> set urls"
  from stored_entry [OF co d u] obtain v where
    v: "net (GET u) = Some v" and f: "filter (\<lambda>(k, v). url k = u) ops = [(GET u, v)]" by blast
  have "filter (\<lambda>(k, v). url k = u) (filter (\<lambda>(k, v). url k \<notin> set urls) c) = []"
    using u by (auto simp: filter_empty_conv)
  with v f show ?thesis by (simp add: query_cache_def GET_def)
qed


lemma set_cache_mem: "name \<in> set (caches_keys st) \<Longrightarrow> (name, c) \<in> set (set_cache name c st)"
  by (induction st) (force simp: caches_keys_def)+

lemma install_handler_Inr:
  "install_handler name assets net w = (Inr x, w') \<Longrightarrow>
   \<exists>c. cache_addAll net assets (cache_of (caches_open name (storage w)) name) = Inr c \<and>
       w' = \<lparr>storage = set_cache name c (caches_open name (storage w)),
             net_log = net_log w @ map GET assets\<rparr>"
  by (auto simp: install_handler_def Let_def split: sum.splits)

lemma install_handler_fail:
  "u \<in> set assets \<Longrightarrow> fetch_for_add net (GET u) = Inl e \<Longrightarrow>
   install_handler name assets net w =
     (Inl TypeError, \<lparr>storage = caches_open name (storage w),
                      net_log = net_log w @ map GET assets\<rparr>)"
  by (simp add: install_handler_def Let_def cache_addAll_fail)

lemma installed_cache:
  "install_handler name assets net w = (Inr x, w') \<Longrightarrow> u \<in> set assets \<Longrightarrow>
   \<exists>c v. storage w' = set_cache name c (caches_open name (storage w)) \<and>
     net (GET u) = Some v \<and> cache_match c (GET u) = Some v \<and>
     query_cache c (GET u) = [(GET u, v)]"
proof -
  assume i: "install_handler name assets net w = (Inr x, w')" and u: "u \<in> set assets"
  from install_handler_Inr [OF i] obtain c where
    a: "cache_addAll net assets (cache_of (caches_open name (storage w)) name) = Inr c"
    and w': "w' = \<lparr>storage = set_cache name c (caches_open name (storage w)),
             net_log = net_log w @ map GET assets\<rparr>" by blast
  from cache_addAll_Inr [OF a] obtain ops where
    co: "collect_responses net (map GET assets) = Inr ops" and d: "distinct assets"
    and c: "c = filter (\<lambda>(k, v). url k \<notin> set assets)
                 (cache_of (caches_open name (storage w)) name) @ ops" by blast
  from cache_match_stored [OF co d u, of "cache_of (caches_open name (storage w)) name"]
  obtain v where v: "net (GET u) = Some v" and q: "query_cache c (GET u) = [(GET u, v)]"
    unfolding c by blast
  from q have m: "cache_match c (GET u) = Some v" by (simp add: cache_match_def)
  from w' have "storage w' = set_cache name c (caches_open name (storage w))" by simp
  with v m q show ?thesis by blast
qed

lemma caches_match_first:
  "\<forall>(n', c') \<in> set st1. cache_match c' req = None \<Longrightarrow>
   caches_match (st1 @ (n, c) # st2) req =
     (case cache_match c req of Some v \<Rightarrow> Some v | None \<Rightarrow> caches_match st2 req)"
  by (induction st1) auto

lemma cache_of_caches_open_any: "cache_of (caches_open name st) n = cache_of st n"
  by (auto simp: caches_open_def cache_of_def caches_keys_def map_of_eq_None_iff [THEN iffD2]
      split: option.splits if_splits)

text \<open>A second run of \<open>cache.addAll\<close>.\<close>

lemma batch_put_Inl_indep:
  "batch_put ops added c = Inl e \<Longrightarrow> batch_put ops added c2 = Inl e"
  by (induction ops added c arbitrary: c2 rule: batch_put.induct) (auto split: if_splits)

lemma cache_addAll_Inl_indep:
  "cache_addAll net urls c = Inl e \<Longrightarrow> cache_addAll net urls c2 = Inl e"
  by (auto simp: cache_addAll_def split: sum.splits dest: batch_put_Inl_indep)

lemma cache_addAll_eq:
  "collect_responses net (map GET urls) = Inr ops \<Longrightarrow> distinct urls \<Longrightarrow>
   cache_addAll net urls c = Inr (filter (\<lambda>(k, v). url k \<notin> set urls) c @ ops)"
proof -
  assume co: "collect_responses net (map GET urls) = Inr ops" and d: "distinct urls"
  from collect_responses_GET [OF co] have u: "map (url \<circ> fst) ops = urls"
    and g: "\<forall>(r, v) \<in> set ops. method r = ''GET''" by blast+
  have e: "urls_of ops \<inter> urls_of [] = {}" by (simp add: urls_of_def)
  from d u have "distinct (map (url \<circ> fst) ops)" by simp
  from batch_put_ok [OF g this e, of c] co obtain c' where
    a: "cache_addAll net urls c = Inr c'" by (auto simp: cache_addAll_def)
  from cache_addAll_Inr [OF a] co a show ?thesis by simp
qed

lemma filter_ops_empty:
  "collect_responses net (map GET urls) = Inr ops \<Longrightarrow>
   filter (\<lambda>(k, v). url k \<notin> set urls) ops = []"
proof -
  assume co: "collect_responses net (map GET urls) = Inr ops"
  from collect_responses_GET [OF co] have "set urls = set (map (url \<circ> fst) ops)" by simp
  then show ?thesis by (force simp: filter_empty_conv)
qed

lemma install_handler_ok:
  "collect_responses net (map GET assets) = Inr ops \<Longrightarrow> distinct assets \<Longrightarrow>
   install_handler name assets net w =
     (Inr (), \<lparr>storage = set_cache name
                 (filter (\<lambda>(k, v). url k \<notin> set assets) (cache_of (storage w) name) @ ops)
                 (caches_open name (storage w)),
               net_log = net_log w @ map GET assets\<rparr>)"
  by (simp add: install_handler_def Let_def cache_addAll_eq cache_of_caches_open_any)

lemma install_handler_cases:
  "(\<exists>ops. collect_responses net (map GET assets) = Inr ops \<and> distinct assets) \<or>
   (\<exists>e. \<forall>w. install_handler name assets net w =
      (Inl e, \<lparr>storage = caches_open name (storage w),
                net_log = net_log w @ map GET assets\<rparr>))"
proof (cases "cache_addAll net assets []")
  case (Inl e)
  from cache_addAll_Inl_indep [OF Inl] have "\<forall>c. cache_addAll net assets c = Inl e" by blast
  then show ?thesis by (simp add: install_handler_def Let_def)
next
  case (Inr c)
  from cache_addAll_Inr [OF Inr] show ?thesis by blast
qed

lemma install_after_install:
  assumes co2: "collect_responses net2 (map GET assets) = Inr ops2" and d: "distinct assets"
  shows "storage (snd (install_handler name assets net2
           (snd (install_handler name assets net w)))) =
         storage (snd (install_handler name assets net2 w))"
proof -
  note i2 = install_handler_ok [OF co2 d]
  from install_handler_cases [of net assets name] show ?thesis
  proof
    assume "\<exists>ops. collect_responses net (map GET assets) = Inr ops \<and> distinct assets"
    then obtain ops where co: "collect_responses net (map GET assets) = Inr ops" by blast
    note i1 = install_handler_ok [OF co d]
    show ?thesis
      by (simp add: i1 i2 cache_of_set_cache caches_open_keys caches_open_idem set_cache_keys
          filter_ops_empty [OF co] set_cache_twice)
  next
    assume "\<exists>e. \<forall>w. install_handler name assets net w =
      (Inl e, \<lparr>storage = caches_open name (storage w),
                net_log = net_log w @ map GET assets\<rparr>)"
    then obtain e where i1: "\<And>w. install_handler name assets net w =
      (Inl e, \<lparr>storage = caches_open name (storage w),
                net_log = net_log w @ map GET assets\<rparr>)" by blast
    show ?thesis
      by (simp add: i1 i2 caches_open_keys caches_open_idem cache_of_caches_open_any)
  qed
qed

text \<open>The definitions that evaluate the handlers at a concrete input.\<close>

lemmas eval_defs = install_handler_def Let_def caches_open_def caches_keys_def cache_of_def
  cache_addAll_def fetch_for_add_def ok_status_def GET_def query_cache_def cache_match_def
  fetch_handler_def net_fetch_def activate_handler_def caches_delete_def update_worker_def

text \<open>
  C1. When the install handler succeeds, the cache named by the version tag exists and
  holds, for every locator of the asset list, the response the network gave for it.
  When the fetch of some locator fails, the install fails with a TypeError, and the
  storage is what \<open>caches.open\<close> left: the opened cache has the entries it had
  before (none when it is new), so nothing of the asset list was stored.
\<close>

theorem install_all_or_nothing:
  assumes "install_handler name assets net w = (out, w')"
  shows "(out = Inr () \<longrightarrow>
            name \<in> set (caches_keys (storage w')) \<and>
            (\<forall>u \<in> set assets. \<exists>v. net (GET u) = Some v \<and>
               cache_match (cache_of (storage w') name) (GET u) = Some v)) \<and>
         ((\<exists>u \<in> set assets. \<exists>e. fetch_for_add net (GET u) = Inl e) \<longrightarrow>
            out = Inl TypeError \<and> storage w' = caches_open name (storage w) \<and>
            cache_of (storage w') name = cache_of (storage w) name)"
proof (intro conjI impI)
  assume o: "out = Inr ()"
  with assms have i: "install_handler name assets net w = (Inr (), w')" by simp
  from install_handler_Inr [OF i] show "name \<in> set (caches_keys (storage w'))"
    by (auto simp: set_cache_keys caches_open_keys)
  show "\<forall>u \<in> set assets. \<exists>v. net (GET u) = Some v \<and>
               cache_match (cache_of (storage w') name) (GET u) = Some v"
  proof
    fix u assume "u \<in> set assets"
    from installed_cache [OF i this] obtain c v where
      "storage w' = set_cache name c (caches_open name (storage w))"
      "net (GET u) = Some v" "cache_match c (GET u) = Some v" by blast
    then show "\<exists>v. net (GET u) = Some v \<and>
               cache_match (cache_of (storage w') name) (GET u) = Some v"
      by (simp add: cache_of_set_cache caches_open_keys)
  qed
next
  assume "\<exists>u \<in> set assets. \<exists>e. fetch_for_add net (GET u) = Inl e"
  then obtain u e where u: "u \<in> set assets" and f: "fetch_for_add net (GET u) = Inl e" by blast
  from install_handler_fail [OF u f, of name w] assms
  have o: "out = Inl TypeError" and w': "storage w' = caches_open name (storage w)" by auto
  from o show "out = Inl TypeError" .
  from w' show "storage w' = caches_open name (storage w)" .
  from w' show "cache_of (storage w') name = cache_of (storage w) name"
    by (simp add: cache_of_caches_open)
qed

theorem install_all_or_nothing_witness:
  "fst (install_handler ''v1'' [''/'', ''/about.html'']
          (\<lambda>r. Some \<lparr>status = 200, body = url r\<rparr>) \<lparr>storage = [], net_log = []\<rparr>) = Inr () \<and>
   cache_match (cache_of (storage (snd (install_handler ''v1'' [''/'', ''/about.html'']
          (\<lambda>r. Some \<lparr>status = 200, body = url r\<rparr>) \<lparr>storage = [], net_log = []\<rparr>))) ''v1'')
     (GET ''/about.html'') = Some \<lparr>status = 200, body = ''/about.html''\<rparr> \<and>
   install_handler ''v1'' [''/'', ''/about.html'']
     (\<lambda>r. Some \<lparr>status = (if url r = ''/'' then 200 else 404), body = url r\<rparr>)
     \<lparr>storage = [], net_log = []\<rparr> =
     (Inl TypeError, \<lparr>storage = [(''v1'', [])], net_log = [GET ''/'', GET ''/about.html'']\<rparr>)"
proof -
  let ?w = "\<lparr>storage = [], net_log = []\<rparr>"
  let ?ok = "\<lambda>r. Some \<lparr>status = 200, body = url r\<rparr>"
  let ?bad = "\<lambda>r. Some \<lparr>status = (if url r = ''/'' then 200 else 404), body = url r\<rparr>"
  let ?w1 = "\<lparr>storage = [(''v1'', [(GET ''/'', \<lparr>status = 200, body = ''/''\<rparr>),
                 (GET ''/about.html'', \<lparr>status = 200, body = ''/about.html''\<rparr>)])],
              net_log = [GET ''/'', GET ''/about.html'']\<rparr>"
  let ?w2 = "\<lparr>storage = [(''v1'', [])], net_log = [GET ''/'', GET ''/about.html'']\<rparr>"
  have h1: "install_handler ''v1'' [''/'', ''/about.html''] ?ok ?w = (Inr (), ?w1)"
    by (simp add: eval_defs)
  have h2: "install_handler ''v1'' [''/'', ''/about.html''] ?bad ?w = (Inl TypeError, ?w2)"
    by (simp add: eval_defs)
  have f: "\<exists>u \<in> set [''/'', ''/about.html'']. \<exists>e. fetch_for_add ?bad (GET u) = Inl e"
    by (simp add: eval_defs)
  from install_all_or_nothing [OF h1] have
    "\<exists>v. ?ok (GET ''/about.html'') = Some v \<and>
       cache_match (cache_of (storage ?w1) ''v1'') (GET ''/about.html'') = Some v"
    by simp
  then have a: "cache_match (cache_of (storage ?w1) ''v1'') (GET ''/about.html'') =
      Some \<lparr>status = 200, body = ''/about.html''\<rparr>"
    by (auto simp: GET_def)
  from install_all_or_nothing [OF h2] f have b: "storage ?w2 = caches_open ''v1'' (storage ?w)" by blast
  from a b show ?thesis by (simp add: h1 h2)
qed


text \<open>
  C3. After a successful install, a GET request for a locator of the asset list is
  answered from the cache and the world is unchanged: nothing reaches the network.
  Once the activate handler has run, the answer is the response stored at install time.
\<close>

theorem cached_asset_served_without_network:
  assumes "install_handler name assets net w = (Inr (), w1)" and "u \<in> set assets"
  shows "(\<exists>v. fetch_handler net' (GET u) w1 = (Inr v, w1)) \<and>
         (\<exists>v. net (GET u) = Some v \<and>
            fetch_handler net' (GET u) (snd (activate_handler name w1)) =
              (Inr v, snd (activate_handler name w1)))"
proof -
  from installed_cache [OF assms] obtain c v where
    st: "storage w1 = set_cache name c (caches_open name (storage w))"
    and v: "net (GET u) = Some v" and m: "cache_match c (GET u) = Some v" by blast
  from m cache_match_Some_iff [of c "GET u"]
  have g: "method (GET u) = ''GET''" and uc: "url (GET u) \<in> urls_of c" by auto
  have "(name, c) \<in> set (storage w1)" by (simp add: st set_cache_mem caches_open_keys)
  with g uc caches_match_Some_iff [of "storage w1" "GET u"]
  have "caches_match (storage w1) (GET u) \<noteq> None" by blast
  then have a: "\<exists>v. fetch_handler net' (GET u) w1 = (Inr v, w1)"
    by (auto simp: fetch_handler_def)
  from filter_set_cache [OF caches_open_keys, of name c' "storage w" for c']
  obtain rest where "filter (\<lambda>(n, c). n = name) (storage w1) = (name, c) # rest"
    unfolding st by blast
  then have "caches_match (storage (snd (activate_handler name w1))) (GET u) = Some v"
    by (simp add: activate_handler_def delete_others_keys m)
  then have "fetch_handler net' (GET u) (snd (activate_handler name w1)) =
              (Inr v, snd (activate_handler name w1))"
    by (simp add: fetch_handler_def)
  with a v show ?thesis by blast
qed



theorem cached_asset_served_without_network_witness:
  "fetch_handler (\<lambda>r. None) (GET ''/about.html'')
     (snd (activate_handler ''v1'' (snd (install_handler ''v1'' [''/'', ''/about.html'']
        (\<lambda>r. Some \<lparr>status = 200, body = url r\<rparr>)
        \<lparr>storage = [(''v0'', [(GET ''/about.html'', \<lparr>status = 200, body = ''stale''\<rparr>)])],
          net_log = []\<rparr>)))) =
   (Inr \<lparr>status = 200, body = ''/about.html''\<rparr>,
    \<lparr>storage = [(''v1'', [(GET ''/'', \<lparr>status = 200, body = ''/''\<rparr>),
                 (GET ''/about.html'', \<lparr>status = 200, body = ''/about.html''\<rparr>)])],
      net_log = [GET ''/'', GET ''/about.html'']\<rparr>)"
proof -
  let ?w = "\<lparr>storage = [(''v0'', [(GET ''/about.html'', \<lparr>status = 200, body = ''stale''\<rparr>)])],
             net_log = []\<rparr>"
  let ?ok = "\<lambda>r. Some \<lparr>status = 200, body = url r\<rparr>"
  let ?c = "[(GET ''/'', \<lparr>status = 200, body = ''/''\<rparr>),
             (GET ''/about.html'', \<lparr>status = 200, body = ''/about.html''\<rparr>)]"
  let ?w1 = "\<lparr>storage = [(''v0'', [(GET ''/about.html'', \<lparr>status = 200, body = ''stale''\<rparr>)]),
                 (''v1'', ?c)],
              net_log = [GET ''/'', GET ''/about.html'']\<rparr>"
  let ?w2 = "\<lparr>storage = [(''v1'', ?c)], net_log = [GET ''/'', GET ''/about.html'']\<rparr>"
  have h1: "install_handler ''v1'' [''/'', ''/about.html''] ?ok ?w = (Inr (), ?w1)"
    by (simp add: eval_defs)
  have h2: "''/about.html'' \<in> set [''/'', ''/about.html'']" by simp
  have a: "snd (activate_handler ''v1'' ?w1) = ?w2" by (simp add: eval_defs)
  from cached_asset_served_without_network [OF h1 h2, of "\<lambda>r. None"]
  have "\<exists>v. ?ok (GET ''/about.html'') = Some v \<and>
          fetch_handler (\<lambda>r. None) (GET ''/about.html'') (snd (activate_handler ''v1'' ?w1)) =
            (Inr v, snd (activate_handler ''v1'' ?w1))" by blast
  then have "fetch_handler (\<lambda>r. None) (GET ''/about.html'') ?w2 =
      (Inr \<lparr>status = 200, body = ''/about.html''\<rparr>, ?w2)"
    unfolding a by (auto simp: GET_def)
  then show ?thesis by (simp only: h1 a snd_conv)
qed

text \<open>
  C4, as the spec states it, fails: the lookup is not confined to the cache named by the
  version tag. While a newer version has installed its cache beside the current one, a
  request for a locator that only the newer cache holds is answered from that cache,
  although the current cache has no entry for it.
\<close>

theorem fetch_other_bucket_counterexample:
  "cache_match
     (cache_of [(CACHE_NAME, [(GET ''/'', \<lparr>status = 200, body = ''home''\<rparr>)]),
                (''meet-patel-portfolio-v2'',
                   [(GET ''/blog.html'', \<lparr>status = 200, body = ''blog''\<rparr>)])] CACHE_NAME)
     (GET ''/blog.html'') = None \<and>
   fetch_handler (\<lambda>r. None) (GET ''/blog.html'')
     \<lparr>storage = [(CACHE_NAME, [(GET ''/'', \<lparr>status = 200, body = ''home''\<rparr>)]),
                 (''meet-patel-portfolio-v2'',
                    [(GET ''/blog.html'', \<lparr>status = 200, body = ''blog''\<rparr>)])],
      net_log = []\<rparr> =
   (Inr \<lparr>status = 200, body = ''blog''\<rparr>,
    \<lparr>storage = [(CACHE_NAME, [(GET ''/'', \<lparr>status = 200, body = ''home''\<rparr>)]),
                 (''meet-patel-portfolio-v2'',
                    [(GET ''/blog.html'', \<lparr>status = 200, body = ''blog''\<rparr>)])],
      net_log = []\<rparr>)"
  by (simp add: cache_of_def CACHE_NAME_def cache_match_def query_cache_def GET_def
      fetch_handler_def)

text \<open>
  C4, amended. The lookup of the fetch handler goes through every cache of the storage
  in the order of creation and matches by method GET and exact URL: there is a match
  exactly when the request is a GET and some cache holds an entry for its URL, the
  answer is the match of the first cache that has one, and without a match the request
  goes to the network. Only when the storage holds a single cache is the lookup the
  lookup in that cache.
\<close>

theorem fetch_lookup_all_buckets:
  "(caches_match (storage w) req \<noteq> None \<longleftrightarrow>
      method req = ''GET'' \<and> (\<exists>(n, c) \<in> set (storage w). url req \<in> urls_of c)) \<and>
   (caches_match (storage w) req = None \<longrightarrow> fetch_handler net req w = net_fetch net req w) \<and>
   (storage w = st1 @ (n, c) # st2 \<and> (\<forall>(n', c') \<in> set st1. cache_match c' req = None) \<and>
    cache_match c req = Some v \<longrightarrow> fetch_handler net req w = (Inr v, w)) \<and>
   (storage w = [(n, c)] \<longrightarrow> caches_match (storage w) req = cache_match c req)"
proof (intro conjI impI)
  show "caches_match (storage w) req \<noteq> None \<longleftrightarrow>
      method req = ''GET'' \<and> (\<exists>(n, c) \<in> set (storage w). url req \<in> urls_of c)"
    by (rule caches_match_Some_iff)
next
  assume "caches_match (storage w) req = None"
  then show "fetch_handler net req w = net_fetch net req w" by (simp add: fetch_handler_def)
next
  assume a: "storage w = st1 @ (n, c) # st2 \<and>
    (\<forall>(n', c') \<in> set st1. cache_match c' req = None) \<and> cache_match c req = Some v"
  then have "caches_match (storage w) req = Some v"
    using caches_match_first [of st1 req n c st2] by simp
  then show "fetch_handler net req w = (Inr v, w)" by (simp add: fetch_handler_def)
next
  assume "storage w = [(n, c)]"
  then show "caches_match (storage w) req = cache_match c req"
    by (simp split: option.splits)
qed

theorem fetch_lookup_all_buckets_witness:
  "fetch_handler (\<lambda>r. None) (GET ''/y'')
     \<lparr>storage = [(''old'', [(GET ''/x'', \<lparr>status = 200, body = ''stale''\<rparr>)]),
                 (CACHE_NAME, [])], net_log = []\<rparr> =
   (Inl TypeError,
    \<lparr>storage = [(''old'', [(GET ''/x'', \<lparr>status = 200, body = ''stale''\<rparr>)]),
                 (CACHE_NAME, [])], net_log = [GET ''/y'']\<rparr>) \<and>
   fetch_handler (\<lambda>r. None) (GET ''/x'')
     \<lparr>storage = [(''old'', [(GET ''/x'', \<lparr>status = 200, body = ''stale''\<rparr>)]),
                 (CACHE_NAME, [])], net_log = []\<rparr> =
   (Inr \<lparr>status = 200, body = ''stale''\<rparr>,
    \<lparr>storage = [(''old'', [(GET ''/x'', \<lparr>status = 200, body = ''stale''\<rparr>)]),
                 (CACHE_NAME, [])], net_log = []\<rparr>) \<and>
   caches_match [(CACHE_NAME, [(GET ''/'', \<lparr>status = 200, body = ''home''\<rparr>)])] (GET ''/'') =
     Some \<lparr>status = 200, body = ''home''\<rparr>"
proof -
  let ?old = "[(GET ''/x'', \<lparr>status = 200, body = ''stale''\<rparr>)]"
  let ?w = "\<lparr>storage = [(''old'', ?old), (CACHE_NAME, [])], net_log = []\<rparr>"
  let ?c = "[(GET ''/'', \<lparr>status = 200, body = ''home''\<rparr>)]"
  let ?w1 = "\<lparr>storage = [(CACHE_NAME, ?c)], net_log = []\<rparr>"
  have miss: "caches_match (storage ?w) (GET ''/y'') = None"
    by (simp add: eval_defs)
  have hit: "storage ?w = [] @ (''old'', ?old) # [(CACHE_NAME, [])] \<and>
     (\<forall>(n', c') \<in> set []. cache_match c' (GET ''/x'') = None) \<and>
     cache_match ?old (GET ''/x'') = Some \<lparr>status = 200, body = ''stale''\<rparr>"
    by (simp add: eval_defs)
  have single: "storage ?w1 = [(CACHE_NAME, ?c)]" by simp
  from fetch_lookup_all_buckets [of ?w "GET ''/y''" "\<lambda>r. None"] miss
  have a: "fetch_handler (\<lambda>r. None) (GET ''/y'') ?w = net_fetch (\<lambda>r. None) (GET ''/y'') ?w"
    by blast
  from fetch_lookup_all_buckets [of ?w "GET ''/x''" "\<lambda>r. None" "[]" "''old''" ?old
      "[(CACHE_NAME, [])]" "\<lparr>status = 200, body = ''stale''\<rparr>"] hit
  have b: "fetch_handler (\<lambda>r. None) (GET ''/x'') ?w =
      (Inr \<lparr>status = 200, body = ''stale''\<rparr>, ?w)"
    by blast
  from fetch_lookup_all_buckets [of ?w1 "GET ''/''" _ _ CACHE_NAME ?c] single
  have c: "caches_match (storage ?w1) (GET ''/'') = cache_match ?c (GET ''/'')"
    by blast
  have d: "cache_match ?c (GET ''/'') = Some \<lparr>status = 200, body = ''home''\<rparr>"
    by (simp add: eval_defs)
  from a b c d show ?thesis by (simp add: net_fetch_def)
qed

lemma fetch_handler_storage: "storage (snd (fetch_handler net req w)) = storage w"
  by (simp add: fetch_handler_def net_fetch_def split: option.splits)

lemma fetch_events_storage: "storage (fetch_events evs w) = storage w"
proof (induction evs arbitrary: w)
  case Nil
  then show ?case by simp
next
  case (Cons ev evs)
  obtain net req where ev: "ev = (net, req)" by (cases ev)
  show ?case by (simp add: ev Cons.IH fetch_handler_storage)
qed

text \<open>
  C5. No invocation of the fetch handler changes the cache storage, and neither does
  any sequence of fetch events. On a miss the request goes to the network, the outcome
  is the network's, and nothing is stored.
\<close>

theorem fetch_never_writes_cache:
  "storage (snd (fetch_handler net req w)) = storage w \<and>
   storage (fetch_events evs w) = storage w \<and>
   (caches_match (storage w) req = None \<longrightarrow>
      fetch_handler net req w =
        ((case net req of None \<Rightarrow> Inl TypeError | Some v \<Rightarrow> Inr v),
         w\<lparr>net_log := net_log w @ [req]\<rparr>))"
proof (intro conjI impI)
  show "storage (snd (fetch_handler net req w)) = storage w"
    by (rule fetch_handler_storage)
  show "storage (fetch_events evs w) = storage w"
    by (rule fetch_events_storage)
next
  assume "caches_match (storage w) req = None"
  then show "fetch_handler net req w =
        ((case net req of None \<Rightarrow> Inl TypeError | Some v \<Rightarrow> Inr v),
         w\<lparr>net_log := net_log w @ [req]\<rparr>)"
    by (simp add: fetch_handler_def net_fetch_def)
qed

theorem fetch_never_writes_cache_witness:
  "fetch_handler (\<lambda>r. Some \<lparr>status = 200, body = ''fresh''\<rparr>) (GET ''/y'')
     \<lparr>storage = [(CACHE_NAME, [(GET ''/'', \<lparr>status = 200, body = ''home''\<rparr>)])],
      net_log = []\<rparr> =
   (Inr \<lparr>status = 200, body = ''fresh''\<rparr>,
    \<lparr>storage = [(CACHE_NAME, [(GET ''/'', \<lparr>status = 200, body = ''home''\<rparr>)])],
      net_log = [GET ''/y'']\<rparr>)"
proof -
  let ?w = "\<lparr>storage = [(CACHE_NAME, [(GET ''/'', \<lparr>status = 200, body = ''home''\<rparr>)])],
      net_log = []\<rparr>"
  have miss: "caches_match (storage ?w) (GET ''/y'') = None"
    by (simp add: eval_defs)
  from fetch_never_writes_cache [of "\<lambda>r. Some \<lparr>status = 200, body = ''fresh''\<rparr>" "GET ''/y''" ?w]
    miss
  have "fetch_handler (\<lambda>r. Some \<lparr>status = 200, body = ''fresh''\<rparr>) (GET ''/y'') ?w =
        ((case Some \<lparr>status = 200, body = ''fresh''\<rparr> of
            None \<Rightarrow> Inl TypeError | Some v \<Rightarrow> Inr v),
         ?w\<lparr>net_log := net_log ?w @ [GET ''/y'']\<rparr>)"
    by blast
  then show ?thesis by simp
qed

text \<open>
  C6. When the install-time fetch of one asset fails, the new worker is discarded
  and the activate handler does not run. The storage is the earlier one, with at most a
  new empty cache for the new version tag: every cache has the entries it had,
  and every request gets from the fetch handler the outcome it got before.
\<close>

theorem failed_install_keeps_previous:
  assumes "u \<in> set assets" and "fetch_for_add net (GET u) = Inl e"
  shows "fst (update_worker name assets net w) = Redundant TypeError \<and>
         storage (snd (update_worker name assets net w)) = caches_open name (storage w) \<and>
         (\<forall>n. cache_of (storage (snd (update_worker name assets net w))) n =
                cache_of (storage w) n) \<and>
         (\<forall>net' req. fst (fetch_handler net' req (snd (update_worker name assets net w))) =
                fst (fetch_handler net' req w))"
proof -
  let ?w' = "\<lparr>storage = caches_open name (storage w), net_log = net_log w @ map GET assets\<rparr>"
  from install_handler_fail [OF assms, of name w]
  have u: "update_worker name assets net w = (Redundant TypeError, ?w')"
    by (simp add: update_worker_def)
  have "fst (fetch_handler net' req ?w') = fst (fetch_handler net' req w)" for net' req
    by (simp add: fetch_handler_def caches_match_caches_open net_fetch_def split: option.splits)
  then show ?thesis by (simp add: u cache_of_caches_open_any)
qed


theorem failed_install_keeps_previous_witness:
  "update_worker ''v2'' [''/'', ''/about.html'']
     (\<lambda>r. Some \<lparr>status = (if url r = ''/'' then 200 else 404), body = ''new''\<rparr>)
     \<lparr>storage = [(''v1'', [(GET ''/'', \<lparr>status = 200, body = ''home''\<rparr>)])], net_log = []\<rparr> =
   (Redundant TypeError,
    \<lparr>storage = [(''v1'', [(GET ''/'', \<lparr>status = 200, body = ''home''\<rparr>)]), (''v2'', [])],
      net_log = [GET ''/'', GET ''/about.html'']\<rparr>) \<and>
   fst (fetch_handler (\<lambda>r. None) (GET ''/'')
     \<lparr>storage = [(''v1'', [(GET ''/'', \<lparr>status = 200, body = ''home''\<rparr>)]), (''v2'', [])],
      net_log = [GET ''/'', GET ''/about.html'']\<rparr>) = Inr \<lparr>status = 200, body = ''home''\<rparr>"
proof -
  let ?bad = "\<lambda>r. Some \<lparr>status = (if url r = ''/'' then 200 else 404), body = ''new''\<rparr>"
  let ?w = "\<lparr>storage = [(''v1'', [(GET ''/'', \<lparr>status = 200, body = ''home''\<rparr>)])],
             net_log = []\<rparr>"
  let ?w' = "\<lparr>storage = [(''v1'', [(GET ''/'', \<lparr>status = 200, body = ''home''\<rparr>)]), (''v2'', [])],
      net_log = [GET ''/'', GET ''/about.html'']\<rparr>"
  have h1: "''/about.html'' \<in> set [''/'', ''/about.html'']" by simp
  have h2: "fetch_for_add ?bad (GET ''/about.html'') = Inl TypeError"
    by (simp add: eval_defs)
  have u: "update_worker ''v2'' [''/'', ''/about.html''] ?bad ?w = (Redundant TypeError, ?w')"
    by (simp add: eval_defs)
  have f: "fst (fetch_handler (\<lambda>r. None) (GET ''/'') ?w) = Inr \<lparr>status = 200, body = ''home''\<rparr>"
    by (simp add: eval_defs)
  from failed_install_keeps_previous [OF h1 h2, of "''v2''" ?w]
  have "fst (fetch_handler (\<lambda>r. None) (GET ''/'')
          (snd (update_worker ''v2'' [''/'', ''/about.html''] ?bad ?w))) =
        fst (fetch_handler (\<lambda>r. None) (GET ''/'') ?w)" by blast
  with u f show ?thesis by simp
qed

text \<open>
  C7. Running the install handler again on the world the first run left gives the same
  storage and the same outcome as the first run. After a successful run the cache holds
  exactly one entry for every locator of the asset list, and a successful run after an
  earlier run (with whatever responses) leaves the storage that this run alone leaves:
  the entries are overwritten, not duplicated.
\<close>

theorem install_idempotent:
  "storage (snd (install_handler name assets net (snd (install_handler name assets net w)))) =
     storage (snd (install_handler name assets net w)) \<and>
   fst (install_handler name assets net (snd (install_handler name assets net w))) =
     fst (install_handler name assets net w) \<and>
   (fst (install_handler name assets net w) = Inr () \<longrightarrow>
      (\<forall>u \<in> set assets.
         length (query_cache (cache_of (storage (snd (install_handler name assets net w))) name)
                   (GET u)) = 1)) \<and>
   (fst (install_handler name assets net2 w) = Inr () \<longrightarrow>
      storage (snd (install_handler name assets net2
                 (snd (install_handler name assets net w)))) =
        storage (snd (install_handler name assets net2 w)))"
proof (intro conjI impI ballI)
  from install_handler_cases [of net assets name]
  show "storage (snd (install_handler name assets net (snd (install_handler name assets net w)))) =
     storage (snd (install_handler name assets net w))"
  proof
    assume "\<exists>ops. collect_responses net (map GET assets) = Inr ops \<and> distinct assets"
    then show ?thesis using install_after_install [of net assets _ name net w] by blast
  next
    assume "\<exists>e. \<forall>w. install_handler name assets net w =
      (Inl e, \<lparr>storage = caches_open name (storage w),
                net_log = net_log w @ map GET assets\<rparr>)"
    then show ?thesis by (auto simp: caches_open_keys caches_open_idem)
  qed
next
  from install_handler_cases [of net assets name]
  show "fst (install_handler name assets net (snd (install_handler name assets net w))) =
     fst (install_handler name assets net w)"
    by (auto simp: install_handler_ok)
next
  fix u
  assume "fst (install_handler name assets net w) = Inr ()" and u: "u \<in> set assets"
  then have i: "install_handler name assets net w =
      (Inr (), snd (install_handler name assets net w))"
    by (metis prod.collapse)
  from installed_cache [OF i u] obtain c v where
    "storage (snd (install_handler name assets net w)) =
       set_cache name c (caches_open name (storage w))"
    and "query_cache c (GET u) = [(GET u, v)]" by blast
  then show "length (query_cache
       (cache_of (storage (snd (install_handler name assets net w))) name) (GET u)) = 1"
    by (simp add: cache_of_set_cache caches_open_keys)
next
  assume "fst (install_handler name assets net2 w) = Inr ()"
  then have i: "install_handler name assets net2 w =
      (Inr (), snd (install_handler name assets net2 w))"
    by (metis prod.collapse)
  from install_handler_Inr [OF i] obtain c where
    "cache_addAll net2 assets (cache_of (caches_open name (storage w)) name) = Inr c" by blast
  from cache_addAll_Inr [OF this] obtain ops2 where
    "collect_responses net2 (map GET assets) = Inr ops2" and "distinct assets" by blast
  from install_after_install [OF this]
  show "storage (snd (install_handler name assets net2
                 (snd (install_handler name assets net w)))) =
        storage (snd (install_handler name assets net2 w))" .
qed


theorem install_idempotent_witness:
  "storage (snd (install_handler ''v1'' [''/'', ''/about.html'']
       (\<lambda>r. Some \<lparr>status = 200, body = ''second''\<rparr>)
       (snd (install_handler ''v1'' [''/'', ''/about.html'']
          (\<lambda>r. Some \<lparr>status = 200, body = ''first''\<rparr>) \<lparr>storage = [], net_log = []\<rparr>)))) =
     [(''v1'', [(GET ''/'', \<lparr>status = 200, body = ''second''\<rparr>),
               (GET ''/about.html'', \<lparr>status = 200, body = ''second''\<rparr>)])] \<and>
   length (query_cache (cache_of (storage (snd (install_handler ''v1'' [''/'', ''/about.html'']
       (\<lambda>r. Some \<lparr>status = 200, body = ''second''\<rparr>) \<lparr>storage = [], net_log = []\<rparr>))) ''v1'')
     (GET ''/'')) = 1"
proof -
  let ?w = "\<lparr>storage = [], net_log = []\<rparr>"
  let ?n1 = "\<lambda>r. Some \<lparr>status = 200, body = ''first''\<rparr>"
  let ?n2 = "\<lambda>r. Some \<lparr>status = 200, body = ''second''\<rparr>"
  let ?w2 = "\<lparr>storage = [(''v1'', [(GET ''/'', \<lparr>status = 200, body = ''second''\<rparr>),
               (GET ''/about.html'', \<lparr>status = 200, body = ''second''\<rparr>)])],
              net_log = [GET ''/'', GET ''/about.html'']\<rparr>"
  have i: "install_handler ''v1'' [''/'', ''/about.html''] ?n2 ?w = (Inr (), ?w2)"
    by (simp add: eval_defs)
  then have h: "fst (install_handler ''v1'' [''/'', ''/about.html''] ?n2 ?w) = Inr ()" by simp
  have m: "''/'' \<in> set [''/'', ''/about.html'']" by simp
  note t = install_idempotent [of "''v1''" "[''/'', ''/about.html'']" ?n2 ?w ?n2]
  note t' = install_idempotent [of "''v1''" "[''/'', ''/about.html'']" ?n1 ?w ?n2]
  from t h m have a: "length (query_cache
      (cache_of (storage (snd (install_handler ''v1'' [''/'', ''/about.html''] ?n2 ?w))) ''v1'')
      (GET ''/'')) = 1" by blast
  from t' h have b: "storage (snd (install_handler ''v1'' [''/'', ''/about.html''] ?n2
      (snd (install_handler ''v1'' [''/'', ''/about.html''] ?n1 ?w)))) =
      storage (snd (install_handler ''v1'' [''/'', ''/about.html''] ?n2 ?w))" by blast
  from a b show ?thesis by (simp only: i snd_conv world.simps)
qed

end
